theory Spec2Isabelle
  imports Main "HOL-Library.Word" "HOL-Library.Multiset"
begin

section \<open>Runtime failures and machine integers\<close>

text \<open>
  A Go panic ends the function (and, in a goroutine, the process) without a result. The
  two panics the modelled code can raise are an index out of range and the
  \<^verbatim>\<open>invalid argument to Int63n\<close> of \<^verbatim>\<open>math/rand\<close>.
\<close>

datatype panic = IndexOutOfRange | InvalidArgument

text \<open>
  Go's \<^verbatim>\<open>int\<close> (on the 64-bit targets the service is deployed to) and
  \<^verbatim>\<open>time.Duration\<close> (an \<^verbatim>\<open>int64\<close> of nanoseconds) are 64-bit
  two's complement integers: \<open>+\<close>, \<open>-\<close> and \<open>*\<close> wrap, comparisons read
  the signed value \<open>sint\<close>.
\<close>

type_synonym go_int = "64 word"
type_synonym duration = "64 word"

section \<open>geometry.go: regionCover\<close>

text \<open>
  The S2 geometry library is an external collaborator. Its four entry points used by
  \<^verbatim>\<open>regionCover\<close> are parameters of the model:
  \<^verbatim>\<open>s2.PointFromLatLng(s2.LatLngFromDegrees(lat, lng))\<close>,
  \<^verbatim>\<open>s2.LoopFromPoints\<close>, \<^verbatim>\<open>s2.PolygonFromLoops\<close> and
  \<^verbatim>\<open>(&s2.RegionCoverer{MaxLevel: l, MaxCells: c}).Covering\<close>.
\<close>

record ('c, 'p, 'l, 'g, 'u) s2 =
  PointFromLatLng :: "'c \<Rightarrow> 'c \<Rightarrow> 'p"
  LoopFromPoints :: "'p list \<Rightarrow> 'l"
  PolygonFromLoops :: "'l list \<Rightarrow> 'g"
  Covering :: "go_int \<Rightarrow> go_int \<Rightarrow> 'g \<Rightarrow> 'u"

text \<open>
  \<^verbatim>\<open>for len(coords) > 0 { lat, lng := coords[0], coords[1]; ...; points = append(points, p); coords = coords[2:] }\<close>
  With one coordinate left, \<^verbatim>\<open>coords[1]\<close> is out of range and the loop panics.
\<close>

fun points_loop :: "('c \<Rightarrow> 'c \<Rightarrow> 'p) \<Rightarrow> 'p list \<Rightarrow> 'c list \<Rightarrow> panic + 'p list" where
  "points_loop mk points [] = Inr points"
| "points_loop mk points [lat] = Inl IndexOutOfRange"
| "points_loop mk points (lat # lng # rest) = points_loop mk (points @ [mk lat lng]) rest"

definition regionCover ::
  "('c, 'p, 'l, 'g, 'u) s2 \<Rightarrow> 'c list \<Rightarrow> go_int \<Rightarrow> go_int \<Rightarrow> panic + 'u" where
  "regionCover lib coords maxLevel maxCells =
     (case points_loop (PointFromLatLng lib) [] coords of
        Inl p \<Rightarrow> Inl p
      | Inr points \<Rightarrow>
          (let l1 = LoopFromPoints lib points;
               loops = [l1];
               poly = PolygonFromLoops lib loops
           in Inr (Covering lib maxLevel maxCells poly)))"

section \<open>service.go: retry\<close>

text \<open>
  A Go \<^verbatim>\<open>error\<close> is identified with its message (\<^verbatim>\<open>err.Error()\<close>);
  \<^verbatim>\<open>nil\<close> is \<open>None\<close>.
\<close>

type_synonym error = string

text \<open>The verb \<^verbatim>\<open>%d\<close> of \<^verbatim>\<open>fmt\<close>: a signed decimal numeral.\<close>

fun dec_nat :: "nat \<Rightarrow> string" where
  "dec_nat n = (if n < 10 then [''0123456789'' ! n] else dec_nat (n div 10) @ [''0123456789'' ! (n mod 10)])"

definition fmt_d :: "go_int \<Rightarrow> string" where
  "fmt_d i = (if sint i < 0 then CHR ''-'' # dec_nat (nat (- sint i)) else dec_nat (nat (sint i)))"

text \<open>\<^verbatim>\<open>fmt.Errorf("after %d attempts, last error: %s", attempts, err)\<close>\<close>

definition Errorf_retry :: "go_int \<Rightarrow> error \<Rightarrow> error" where
  "Errorf_retry attempts err = ''after '' @ fmt_d attempts @ '' attempts, last error: '' @ err"

text \<open>
  What one call of \<^verbatim>\<open>retry\<close> does: how often it invoked the callback, the
  arguments of its \<^verbatim>\<open>time.Sleep\<close> calls in order, and how it ended (the returned
  \<^verbatim>\<open>err\<close>, or a panic).
\<close>

record retry_run =
  invocations :: nat
  sleeps :: "duration list"
  outcome :: "panic + error option"

text \<open>
  The callback is a closure with effects of its own: it is given as the stream of its
  results, \<open>callback i\<close> being what invocation \<open>i\<close> (from 0) returns. The random
  source is a stream as well: \<open>rand i\<close> is the raw non-negative number behind the draw
  of iteration \<open>i\<close>, and \<^verbatim>\<open>rand.Int63n(n)\<close> reduces it to \<open>[0, n)\<close>; it panics
  when \<open>n \<le> 0\<close>.

  \<^verbatim>\<open>
  for i := 0; ; i++ {
      err = callback()
      if err == nil { return }
      if i >= (attempts - 1) { break }
      jitter := time.Duration(rand.Int63n(int64(sleep)))
      sleep = sleep + jitter/2
      time.Sleep(sleep)
  }
  return fmt.Errorf("after %d attempts, last error: %s", attempts, err)
  \<close>
  The counter \<open>i\<close> is a natural number here: it is only incremented below
  \<open>attempts - 1\<close>, so it never wraps. \<open>attempts - 1\<close> and \<open>sleep + jitter/2\<close> are
  64-bit operations and do wrap; \<open>jitter\<close> is non-negative, so \<open>jitter/2\<close> is \<open>div\<close>.
\<close>

function retry_loop ::
  "go_int \<Rightarrow> (nat \<Rightarrow> error option) \<Rightarrow> (nat \<Rightarrow> nat) \<Rightarrow> nat \<Rightarrow> duration \<Rightarrow> retry_run" where
  "retry_loop attempts callback rand i sleep =
     (case callback i of
        None \<Rightarrow> \<lparr>invocations = Suc i, sleeps = [], outcome = Inr None\<rparr>
      | Some err \<Rightarrow>
          if sint (attempts - 1) \<le> int i then
            \<lparr>invocations = Suc i, sleeps = [], outcome = Inr (Some (Errorf_retry attempts err))\<rparr>
          else if sint sleep \<le> 0 then
            \<lparr>invocations = Suc i, sleeps = [], outcome = Inl InvalidArgument\<rparr>
          else
            (let jitter = int (rand i mod nat (sint sleep));
                 sleep' = sleep + word_of_int (jitter div 2);
                 rest = retry_loop attempts callback rand (Suc i) sleep'
             in rest\<lparr>sleeps := sleep' # sleeps rest\<rparr>))"
  by pat_completeness auto
termination
  by (relation "measure (\<lambda>(attempts, callback, rand, i, sleep). nat (sint (attempts - 1) - int i))") auto

definition retry :: "go_int \<Rightarrow> duration \<Rightarrow> (nat \<Rightarrow> error option) \<Rightarrow> (nat \<Rightarrow> nat) \<Rightarrow> retry_run" where
  "retry attempts sleep callback rand = retry_loop attempts callback rand 0 sleep"

declare retry_loop.simps [simp del]

section \<open>query.go and geometry.go: getImageCount and imagesByRegion\<close>

text \<open>
  The iterators of the BigQuery and Storage clients are external collaborators. What an
  iterator hands out, call by call, is a list of items, each a record or an error;
  after the last one \<^verbatim>\<open>Next\<close> returns \<^verbatim>\<open>iterator.Done\<close>.
\<close>

datatype 'a item = Item 'a | ItemError error

text \<open>
  A goroutine reports to \<^verbatim>\<open>imagesByRegion\<close> by a count on the buffered channel
  \<^verbatim>\<open>results\<close> or by an error on the unbuffered channel \<^verbatim>\<open>errChan\<close>.
\<close>

datatype report = Count go_int | Failure error

text \<open>
  \<^verbatim>\<open>
  for {
      err := rows.Next(&row)
      if err == iterator.Done { channel <- count; break }
      if err != nil { errors <- err }
      imgCount := int(row[0].(int64))
      count += imgCount
  }
  \<close>
  A row is given by its first column, an \<^verbatim>\<open>int64\<close>. The function yields the first
  report the goroutine makes. After a count the goroutine ends. After an error it does
  not (there is no \<^verbatim>\<open>return\<close>), but the send on \<^verbatim>\<open>errors\<close> completes only
  when \<^verbatim>\<open>imagesByRegion\<close> receives it, and \<^verbatim>\<open>imagesByRegion\<close> returns on the
  first error it receives: nothing the goroutine does later is seen.
\<close>

fun count_rows :: "go_int \<Rightarrow> go_int item list \<Rightarrow> report" where
  "count_rows cnt [] = Count cnt"
| "count_rows cnt (ItemError err # rows) = Failure err"
| "count_rows cnt (Item imgCount # rows) = count_rows (cnt + imgCount) rows"

text \<open>
  \<^verbatim>\<open>rows, err := query.Read(r.Context()); if err != nil { errors <- err }\<close>, then the
  loop. The argument is what \<^verbatim>\<open>Read\<close> returns: an error, or the rows.
\<close>

definition getImageCount :: "error + go_int item list \<Rightarrow> report" where
  "getImageCount read = (case read of Inl err \<Rightarrow> Failure err | Inr rows \<Rightarrow> count_rows 0 rows)"

definition bucketGranuleSize :: go_int where
  "bucketGranuleSize = 13"

text \<open>
  \<^verbatim>\<open>
  for range cover {
      select {
      case err := <-errChan: return 0, err
      case count := <-results: imageCount += count
      }
  }
  ...
  return imageCount * bucketGranuleSize, nil
  \<close>
  The second argument lists the reports in the order the \<^verbatim>\<open>select\<close> receives them.
  With an iteration left and no report to come the loop blocks for ever: \<open>None\<close>.
\<close>

fun await_results :: "nat \<Rightarrow> report list \<Rightarrow> go_int \<Rightarrow> (go_int \<times> error option) option" where
  "await_results 0 arrivals imageCount = Some (imageCount * bucketGranuleSize, None)"
| "await_results (Suc n) [] imageCount = None"
| "await_results (Suc n) (Failure err # arrivals) imageCount = Some (0, Some err)"
| "await_results (Suc n) (Count cnt # arrivals) imageCount = await_results n arrivals (imageCount + cnt)"

text \<open>
  \<^verbatim>\<open>imagesByRegion\<close> starts one goroutine per cell of the cover. Its parameters beside
  the cover: what \<^verbatim>\<open>bigquery.NewClient\<close> returns (\<open>None\<close>: a client), the answer
  \<open>bq i c\<close> of BigQuery to the query of goroutine \<open>i\<close> for cell \<open>c\<close> (the bounding
  rectangle of the cell and the text of the query are the collaborators' business), and
  the scheduling: the goroutines in the order their reports are received.
\<close>

definition imagesByRegion ::
  "error option \<Rightarrow> (nat \<Rightarrow> 'cell \<Rightarrow> error + go_int item list) \<Rightarrow> nat list \<Rightarrow> 'cell list \<Rightarrow>
     (go_int \<times> error option) option" where
  "imagesByRegion newClient bq order cover =
     (case newClient of
        Some err \<Rightarrow> Some (0, Some err)
      | None \<Rightarrow>
          await_results (length cover) (map (\<lambda>i. getImageCount (bq i (cover ! i))) order) 0)"

section \<open>service.go and query.go: the worker pool\<close>

text \<open>
  \<^verbatim>\<open>strings.SplitAfter(s, sep)\<close>: \<open>s\<close> cut after each occurrence of \<open>sep\<close>, the
  occurrences taken leftmost first and not overlapping; the last piece is what follows the
  last occurrence, and is empty when \<open>s\<close> ends with \<open>sep\<close>. (With an empty separator Go
  cuts after every character.)
\<close>

fun split_after :: "string \<Rightarrow> string \<Rightarrow> string \<Rightarrow> string list" where
  "split_after sep piece [] = [piece]"
| "split_after sep piece (c # s) =
     (if take (length sep) (c # s) = sep
      then (piece @ sep) # split_after sep [] (drop (length sep - 1) s)
      else split_after sep (piece @ [c]) s)"

definition SplitAfter :: "string \<Rightarrow> string \<Rightarrow> string list" where
  "SplitAfter s sep = (if sep = [] then map (\<lambda>c. [c]) s else split_after sep [] s)"

text \<open>\<^verbatim>\<open>strings.Trim(s, cutset)\<close>: \<open>s\<close> without its leading and trailing characters of \<open>cutset\<close>.\<close>

definition Trim :: "string \<Rightarrow> string \<Rightarrow> string" where
  "Trim s cutset =
     rev (dropWhile (\<lambda>c. c \<in> set cutset) (rev (dropWhile (\<lambda>c. c \<in> set cutset) s)))"

text \<open>
  \<^verbatim>\<open>
  for {
      attrs, err := it.Next()
      if err == iterator.Done { break }
      if err != nil { return nil, err }
      fullImageURL.WriteString(bucketName + "/" + attrs.Name)
      links = append(links, fullImageURL.String())
      fullImageURL.Reset()
  }
  return links, nil
  \<close>
  The iterator \<open>it\<close> is what the Storage client hands out for the bucket and the prefix;
  an object is given by its name. \<open>Inl err\<close> is the pair \<^verbatim>\<open>nil, err\<close>.
\<close>

fun list_objects :: "string \<Rightarrow> string list \<Rightarrow> string item list \<Rightarrow> error + string list" where
  "list_objects bucketName links [] = Inr links"
| "list_objects bucketName links (ItemError err # it) = Inl err"
| "list_objects bucketName links (Item name # it) =
     list_objects bucketName (links @ [bucketName @ ''/'' @ name]) it"

definition getImagesFromBucket :: "string \<Rightarrow> string item list \<Rightarrow> error + string list" where
  "getImagesFromBucket bucketName it = list_objects bucketName [] it"

record RequestRetrySession =
  MaxRetries :: go_int
  Duration :: duration

definition DefaultRetry :: RequestRetrySession where
  "DefaultRetry = \<lparr>MaxRetries = 5, Duration = 10\<rparr>"

text \<open>\<^verbatim>\<open>time.Second\<close>, in nanoseconds.\<close>

definition Second :: duration where
  "Second = 1000000000"

record Result =
  Links :: "string list"
  Error :: "error option"

text \<open>
  What a worker meets outside itself, as time goes on: \<open>objects w n bucket prefix\<close> is
  the iterator its \<open>n\<close>-th listing call (from 0) gets for the bucket and the prefix, and
  \<open>draws w i\<close> the raw number behind its \<open>i\<close>-th random draw. \<open>advance k d w\<close> is the
  world after \<open>k\<close> more listing calls and \<open>d\<close> more draws.
\<close>

record world =
  objects :: "nat \<Rightarrow> string \<Rightarrow> string \<Rightarrow> string item list"
  draws :: "nat \<Rightarrow> nat"

definition advance :: "nat \<Rightarrow> nat \<Rightarrow> world \<Rightarrow> world" where
  "advance k d w = \<lparr>objects = (\<lambda>n. objects w (n + k)), draws = (\<lambda>i. draws w (i + d))\<rparr>"

text \<open>
  The body of the worker's loop, for one job:
  \<^verbatim>\<open>
  linkAndGranule := strings.SplitAfter(imgLink, "gcp-public-data-sentinel-2")
  bucketName := linkAndGranule[0]
  imageObject := strings.Trim(linkAndGranule[1], "/")
  result, err := getImagesFromBucket(client, bucketName, imageObject, r)
  if err != nil {
      err := retry(DefaultRetry().MaxRetries, DefaultRetry().Duration*time.Second, func() (err error) {
          result, err = getImagesFromBucket(client, bucketName, imageObject, r)
          return
      })
      if err != nil { folderImages.Error = err }
  }
  folderImages.Links = result
  \<close>
  \<^verbatim>\<open>linkAndGranule[1]\<close> panics when the link does not contain the bucket name. The
  closure assigns \<open>result\<close> at each invocation, so after \<^verbatim>\<open>retry\<close> it holds what the
  last listing call returned: its links, or \<^verbatim>\<open>nil\<close> when it failed.
\<close>

definition worker_job :: "world \<Rightarrow> Result \<Rightarrow> string \<Rightarrow> panic + world \<times> Result" where
  "worker_job w folderImages imgLink =
     (let linkAndGranule = SplitAfter imgLink ''gcp-public-data-sentinel-2'' in
      if length linkAndGranule < 2 then Inl IndexOutOfRange
      else
        (let bucketName = linkAndGranule ! 0;
             imageObject = Trim (linkAndGranule ! 1) ''/'';
             call = (\<lambda>n. getImagesFromBucket bucketName (objects w n bucketName imageObject))
         in case call 0 of
              Inr result \<Rightarrow> Inr (advance 1 0 w, folderImages\<lparr>Links := result\<rparr>)
            | Inl err \<Rightarrow>
                (let run = retry (MaxRetries DefaultRetry) (Duration DefaultRetry * Second)
                             (\<lambda>i. case call (Suc i) of Inl e \<Rightarrow> Some e | Inr links \<Rightarrow> None)
                             (draws w);
                     result = (case call (invocations run) of Inl e \<Rightarrow> [] | Inr links \<Rightarrow> links);
                     w' = advance (Suc (invocations run)) (length (sleeps run)) w
                 in case outcome run of
                      Inl p \<Rightarrow> Inl p
                    | Inr None \<Rightarrow> Inr (w', folderImages\<lparr>Links := result\<rparr>)
                    | Inr (Some err') \<Rightarrow>
                        Inr (w', folderImages\<lparr>Error := Some err', Links := result\<rparr>))))"

text \<open>
  \<^verbatim>\<open>folderImages := Result{}; for imgLink := range jobs { ... }; results <- folderImages\<close>.
  The jobs are those the worker receives before the channel is closed, in order; the
  value is the one \<^verbatim>\<open>Result\<close> it then sends, unless it panicked.
\<close>

fun worker_loop :: "world \<Rightarrow> Result \<Rightarrow> string list \<Rightarrow> panic + Result" where
  "worker_loop w folderImages [] = Inr folderImages"
| "worker_loop w folderImages (imgLink # jobs) =
     (case worker_job w folderImages imgLink of
        Inl p \<Rightarrow> Inl p
      | Inr (w', folderImages') \<Rightarrow> worker_loop w' folderImages' jobs)"

definition worker :: "world \<Rightarrow> string list \<Rightarrow> panic + Result" where
  "worker w jobs = worker_loop w \<lparr>Links = [], Error = None\<rparr> jobs"

text \<open>
  The scheduling of one call of \<^verbatim>\<open>pool\<close>: \<open>taker ! j\<close> is the worker that receives
  job \<open>j\<close> from the unbuffered channel \<^verbatim>\<open>jobs\<close>, and \<open>arrival\<close> lists the workers
  in the order \<^verbatim>\<open>pool\<close> receives their results. The jobs are sent in order, so a
  worker receives its jobs in the order of the links.
\<close>

record schedule =
  taker :: "nat list"
  arrival :: "nat list"

definition jobs_of :: "schedule \<Rightarrow> string list \<Rightarrow> nat \<Rightarrow> string list" where
  "jobs_of sched links k =
     map ((!) links) (filter (\<lambda>j. taker sched ! j = k) [0..<length links])"

text \<open>
  \<^verbatim>\<open>for i := 0; i <= numberOfJobs; i++ { result := <-results; imageResult.Links = append(imageResult.Links, result.Links...) }\<close>
  A worker that panicked ends the process: there is no result of the pool.
\<close>

fun collect :: "Result \<Rightarrow> (panic + Result) list \<Rightarrow> panic + Result" where
  "collect imageResult [] = Inr imageResult"
| "collect imageResult (Inl p # results) = Inl p"
| "collect imageResult (Inr result # results) =
     collect (imageResult\<lparr>Links := Links imageResult @ Links result\<rparr>) results"

text \<open>
  \<^verbatim>\<open>pool\<close> starts \<open>numberOfJobs + 1\<close> workers (\<^verbatim>\<open>i <= numberOfJobs\<close>), numbered from
  0. Its parameters beside the links: what \<^verbatim>\<open>storage.NewClient\<close> returns (\<open>None\<close>: a
  client), the world of each worker, and the scheduling.
\<close>

definition pool :: "error option \<Rightarrow> (nat \<Rightarrow> world) \<Rightarrow> schedule \<Rightarrow> string list \<Rightarrow> panic + Result" where
  "pool newClient worlds sched links =
     (let imageResult = \<lparr>Links = [], Error = None\<rparr> in
      case newClient of
        Some err \<Rightarrow> Inr (imageResult\<lparr>Error := Some err\<rparr>)
      | None \<Rightarrow>
          collect imageResult
            (map (\<lambda>k. worker (worlds k) (jobs_of sched links k)) (arrival sched)))"

text \<open>
  A scheduling of \<open>n\<close> jobs among the \<open>n + 1\<close> workers: every job has a taker, and every
  worker's result is received once.
\<close>

definition schedule_of :: "nat \<Rightarrow> schedule \<Rightarrow> bool" where
  "schedule_of n sched =
     (length (taker sched) = n \<and> list_all (\<lambda>k. k < n + 1) (taker sched) \<and>
      mset (arrival sched) = mset [0..<n + 1])"

section \<open>Auxiliary functions of the proofs\<close>

text \<open>The points the pairing loop produces, by structural recursion.\<close>

fun pairs_of :: "('c \<Rightarrow> 'c \<Rightarrow> 'p) \<Rightarrow> 'c list \<Rightarrow> 'p list" where
  "pairs_of mk (lat # lng # rest) = mk lat lng # pairs_of mk rest"
| "pairs_of mk _ = []"

text \<open>
  A run of delays starting from base delay \<open>b\<close>: each delay is its base plus less than
  half of it, and is the base of the next one.
\<close>

fun backoff_chain :: "int \<Rightarrow> int list \<Rightarrow> bool" where
  "backoff_chain b [] = True"
| "backoff_chain b (d # ds) = (0 < b \<and> b \<le> d \<and> 2 * (d - b) < b \<and> backoff_chain d ds)"

section \<open>Properties of regionCover\<close>

lemma points_loop_even:
  "even (length coords) \<Longrightarrow> points_loop mk points coords = Inr (points @ pairs_of mk coords)"
  by (induction mk points coords rule: points_loop.induct) auto

lemma points_loop_odd:
  "odd (length coords) \<Longrightarrow> points_loop mk points coords = Inl IndexOutOfRange"
  by (induction mk points coords rule: points_loop.induct) auto

lemma length_pairs_of: "length (pairs_of mk coords) = length coords div 2"
  by (induction mk coords rule: pairs_of.induct) auto

lemma nth_pairs_of:
  "i < length coords div 2 \<Longrightarrow> pairs_of mk coords ! i = mk (coords ! (2 * i)) (coords ! (2 * i + 1))"
proof (induction mk coords arbitrary: i rule: pairs_of.induct)
  case (1 mk lat lng rest)
  then show ?case by (cases i) auto
qed auto

lemma points_loop_pairs:
  assumes "length coords = 2 * n"
  shows "\<exists>points. points_loop mk [] coords = Inr points \<and> length points = n \<and>
           (\<forall>i<n. points ! i = mk (coords ! (2 * i)) (coords ! (2 * i + 1)))"
proof -
  have "points_loop mk [] coords = Inr (pairs_of mk coords)"
    using assms points_loop_even [of coords mk "[]"] by simp
  moreover have "length (pairs_of mk coords) = n"
    using assms by (simp add: length_pairs_of)
  moreover have "\<forall>i<n. pairs_of mk coords ! i = mk (coords ! (2 * i)) (coords ! (2 * i + 1))"
    using assms by (simp add: nth_pairs_of)
  ultimately show ?thesis by blast
qed

text \<open>
  Claim C6. For a coordinate sequence of even length \<open>2n\<close> the pairing loop of
  \<^verbatim>\<open>regionCover\<close> never reads out of range and yields exactly \<open>n\<close> points in
  input order, point \<open>i\<close> built from the latitude at index \<open>2i\<close> and the longitude at
  index \<open>2i + 1\<close>. A sequence of odd length is a caller error: the loop, and with it
  \<^verbatim>\<open>regionCover\<close>, panics with an index out of range.
\<close>

theorem regionCover_pairing:
  "(length coords = 2 * n \<longrightarrow>
      (\<exists>points. points_loop (PointFromLatLng lib) [] coords = Inr points \<and> length points = n \<and>
         (\<forall>i<n. points ! i = PointFromLatLng lib (coords ! (2 * i)) (coords ! (2 * i + 1))))) \<and>
   (odd (length coords) \<longrightarrow>
      points_loop (PointFromLatLng lib) [] coords = Inl IndexOutOfRange \<and>
      regionCover lib coords maxLevel maxCells = Inl IndexOutOfRange)"
  using points_loop_pairs [of coords n "PointFromLatLng lib"]
    points_loop_odd [of coords "PointFromLatLng lib" "[]"]
  by (simp add: regionCover_def)

theorem regionCover_pairing_witness:
  "length [55, 12, 55, 13, 56, 13, 56, 12 :: int] = 2 * 4 \<and>
   points_loop Pair [] [55, 12, 55, 13, 56, 13, 56, 12 :: int] =
     Inr [(55, 12), (55, 13), (56, 13), (56, 12)] \<and>
   odd (length [55, 12, 55 :: int]) \<and>
   points_loop Pair [] [55, 12, 55 :: int] = (Inl IndexOutOfRange :: panic + (int \<times> int) list) \<and>
   regionCover \<lparr>PointFromLatLng = Pair, LoopFromPoints = id, PolygonFromLoops = id,
                Covering = (\<lambda>maxLevel maxCells. id)\<rparr> [55, 12, 55 :: int] 15 100 =
     Inl IndexOutOfRange"
  using
    regionCover_pairing [of "[55, 12, 55, 13, 56, 13, 56, 12 :: int]" 4
      "\<lparr>PointFromLatLng = Pair, LoopFromPoints = id, PolygonFromLoops = id,
        Covering = (\<lambda>maxLevel maxCells. id)\<rparr>" 15 100]
    regionCover_pairing [of "[55, 12, 55 :: int]" 0
      "\<lparr>PointFromLatLng = Pair, LoopFromPoints = id, PolygonFromLoops = id,
        Covering = (\<lambda>maxLevel maxCells. id)\<rparr>" 15 100]
  by simp

text \<open>
  Claim C7 says that a coordinate sequence yielding fewer than 3 points makes
  \<^verbatim>\<open>regionCover\<close> signal a caller error instead of producing a cover. The function
  has no error result and checks nothing: two points are paired and handed to the library
  like any other list, and the covering the library computes is returned.
\<close>

theorem regionCover_degenerate_counterexample:
  "length [(55, 12), (55, 13 :: int)] < 3 \<and>
   regionCover \<lparr>PointFromLatLng = Pair, LoopFromPoints = id, PolygonFromLoops = id,
                Covering = (\<lambda>maxLevel maxCells. id)\<rparr> [55, 12, 55, 13 :: int] 15 100 =
     Inr [[(55, 12), (55, 13)]]"
  by (simp add: regionCover_def)

text \<open>
  Claim C7, amended. For every coordinate sequence of even length that yields fewer than
  3 points, \<^verbatim>\<open>regionCover\<close> raises no error of its own: it returns the covering
  the S2 coverer computes, under the two budgets, for the polygon of the single loop
  through the paired points.
\<close>

theorem regionCover_degenerate:
  assumes "even (length coords)" and "length coords div 2 < 3"
  shows "\<exists>points. points_loop (PointFromLatLng lib) [] coords = Inr points \<and>
           length points = length coords div 2 \<and>
           regionCover lib coords maxLevel maxCells =
             Inr (Covering lib maxLevel maxCells (PolygonFromLoops lib [LoopFromPoints lib points]))"
proof -
  have "points_loop (PointFromLatLng lib) [] coords = Inr (pairs_of (PointFromLatLng lib) coords)"
    using assms(1) points_loop_even [of coords "PointFromLatLng lib" "[]"] by simp
  then show ?thesis
    by (intro exI [of _ "pairs_of (PointFromLatLng lib) coords"])
      (simp add: regionCover_def length_pairs_of)
qed

theorem regionCover_degenerate_witness:
  "even (length [55, 12 :: int]) \<and> length [55, 12 :: int] div 2 < 3 \<and>
   regionCover \<lparr>PointFromLatLng = Pair, LoopFromPoints = id, PolygonFromLoops = id,
                Covering = (\<lambda>maxLevel maxCells. id)\<rparr> [55, 12 :: int] 15 100 =
     Inr [[(55, 12)]]"
proof -
  have h1: "even (length [55, 12 :: int])" and h2: "length [55, 12 :: int] div 2 < 3"
    by simp_all
  from regionCover_degenerate [OF h1 h2,
      of "\<lparr>PointFromLatLng = Pair, LoopFromPoints = id, PolygonFromLoops = id,
           Covering = (\<lambda>maxLevel maxCells. id)\<rparr>" 15 100]
  have "regionCover \<lparr>PointFromLatLng = Pair, LoopFromPoints = id, PolygonFromLoops = id,
                Covering = (\<lambda>maxLevel maxCells. id)\<rparr> [55, 12 :: int] 15 100 =
     Inr [[(55, 12)]]"
    by auto
  with h1 h2 show ?thesis by blast
qed

section \<open>Properties of retry\<close>

lemma jitter_bounds:
  assumes "0 < sint (s :: duration)"
  shows "0 \<le> int (r mod nat (sint s)) div 2" and "2 * (int (r mod nat (sint s)) div 2) < sint s"
proof -
  have "r mod nat (sint s) < nat (sint s)" using assms by simp
  then have "int (r mod nat (sint s)) < sint s" using assms by linarith
  then show "2 * (int (r mod nat (sint s)) div 2) < sint s" by linarith
  show "0 \<le> int (r mod nat (sint s)) div 2" by simp
qed

lemma sint_add_exact:
  fixes s :: duration
  assumes "0 \<le> j" "0 \<le> sint s" "sint s + j < 2 ^ 63"
  shows "sint (s + word_of_int j) = sint s + j"
proof -
  have "s + word_of_int j = word_of_int (sint s + j)"
    by simp
  then have "sint (s + word_of_int j) = signed_take_bit 63 (sint s + j)"
    by (simp only: sint_sbintrunc') simp
  also have "\<dots> = sint s + j"
    using assms by (intro signed_take_bit_int_eq_self) auto
  finally show ?thesis .
qed

lemma sint_add_wrapped:
  fixes s :: duration
  assumes "0 \<le> sint s" "2 ^ 63 \<le> sint s + j" "j < 2 ^ 63"
  shows "sint (s + word_of_int j) < 0"
proof -
  have lt: "sint s < 2 ^ 63"
    using sint_lt [of s] by simp
  have "s + word_of_int j = word_of_int (sint s + j)"
    by simp
  then have "sint (s + word_of_int j) = (sint s + j + 2 ^ 63) mod 2 ^ 64 - 2 ^ 63"
    by (simp only: int_word_sint) simp
  also have "(sint s + j + 2 ^ 63) mod 2 ^ 64 = sint s + j + 2 ^ 63 - 2 ^ 64"
    using assms lt by (intro int_mod_pos_eq[where q = 1]) auto
  finally show ?thesis
    using assms lt by simp
qed

lemma sint_sub1:
  fixes a :: go_int
  assumes "- (2 ^ 63) < sint a"
  shows "sint (a - 1) = sint a - 1"
proof -
  have "sint a < 2 ^ 63"
    using sint_lt [of a] by simp
  then show ?thesis
    using assms by (simp add: sint_word_diff signed_take_bit_int_eq_self)
qed

lemma invocations_gt: "i < invocations (retry_loop a cb rnd i s)"
proof (induction a cb rnd i s rule: retry_loop.induct)
  case (1 a cb rnd i s)
  show ?case
    apply (subst retry_loop.simps)
    using 1 by (fastforce split: option.splits simp: Let_def dest: Suc_lessD)
qed


lemma retry_loop_unfold_fail:
  assumes "cb i = Some e" "int i < sint a - 1" "- (2 ^ 63) < sint a" "0 < sint s"
  shows "retry_loop a cb rnd i s =
     (let s' = s + word_of_int (int (rnd i mod nat (sint s)) div 2);
          rest = retry_loop a cb rnd (Suc i) s'
      in rest\<lparr>sleeps := s' # sleeps rest\<rparr>)"
  using assms by (subst retry_loop.simps) (simp add: sint_sub1 Let_def)

lemma pos_gt_min: "0 \<le> (x::int) \<Longrightarrow> - (2 ^ 63) < x"
  by simp

lemma backoff_step:
  fixes s :: duration and r :: nat
  assumes "0 < sint s" "sint s * 2 * 2 ^ n < B" "B \<le> 2 ^ 63"
  defines "s' \<equiv> s + word_of_int (int (r mod nat (sint s)) div 2)"
  shows "0 < sint s'" and "sint s' * 2 ^ n < B"
proof -
  let ?j = "int (r mod nat (sint s)) div 2"
  have j: "0 \<le> ?j" "2 * ?j < sint s"
    using jitter_bounds [OF assms(1)] by auto
  have "1 \<le> (2::int) ^ n" by simp
  then have "sint s * 2 * 1 \<le> sint s * 2 * 2 ^ n"
    using assms(1) by (intro mult_left_mono) auto
  with assms(2,3) have small: "sint s + ?j < 2 ^ 63" using j by linarith
  have eq: "sint s' = sint s + ?j"
    unfolding s'_def using j assms(1) small by (intro sint_add_exact) auto
  show "0 < sint s'" using eq j assms(1) by simp
  have "sint s' \<le> sint s * 2" using eq j by simp
  then have "sint s' * 2 ^ n \<le> sint s * 2 * 2 ^ n"
    by (intro mult_right_mono) auto
  with assms(2) show "sint s' * 2 ^ n < B" by linarith
qed

lemma retry_loop_succeeds:
  assumes "k - i = n" "i \<le> k" "\<forall>j. i \<le> j \<and> j < k \<longrightarrow> cb j \<noteq> None" "cb k = None"
    "int k < sint a" "0 < sint s" "sint s * 2 ^ n < 2 ^ 63"
  shows "invocations (retry_loop a cb rnd i s) = Suc k \<and> outcome (retry_loop a cb rnd i s) = Inr None"
  using assms
proof (induction n arbitrary: i s)
  case 0
  then have "i = k" by simp
  with 0 show ?case by (subst (1 2) retry_loop.simps) simp
next
  case (Suc n)
  then have ik: "i < k" by simp
  with Suc.prems(2,3) obtain e where e: "cb i = Some e" by blast
  have a: "- (2 ^ 63) < sint a" "int i < sint a - 1"
    using Suc.prems(5) ik by (auto intro: pos_gt_min)
  let ?s' = "s + word_of_int (int (rnd i mod nat (sint s)) div 2)"
  have "sint s * 2 * 2 ^ n < 2 ^ 63"
    using Suc.prems(7) by (simp add: mult.assoc)
  then have s': "0 < sint ?s'" "sint ?s' * 2 ^ n < 2 ^ 63"
    using backoff_step [of s n "2 ^ 63" "rnd i"] Suc.prems(6) by auto
  have "invocations (retry_loop a cb rnd (Suc i) ?s') = Suc k \<and>
        outcome (retry_loop a cb rnd (Suc i) ?s') = Inr None"
    using Suc.prems ik s' by (intro Suc.IH) auto
  then show ?case
    using retry_loop_unfold_fail [of cb i e a s rnd] e a Suc.prems(6) by (simp add: Let_def)
qed

lemma retry_loop_exhausts:
  assumes "nat (sint a) - 1 - i = n" "int i < sint a" "\<forall>j. cb j \<noteq> None"
    "0 < sint s" "sint s * 2 ^ n < 2 ^ 63"
  shows "invocations (retry_loop a cb rnd i s) = nat (sint a) \<and>
         outcome (retry_loop a cb rnd i s) = Inr (Some (Errorf_retry a (the (cb (nat (sint a) - 1)))))"
  using assms
proof (induction n arbitrary: i s)
  case 0
  then have i: "int i = sint a - 1" by linarith
  then have i': "i = nat (sint a) - 1" by linarith
  from 0(3) obtain e where e: "cb i = Some e" by blast
  have "sint (a - 1) = sint a - 1"
    using 0 by (intro sint_sub1 pos_gt_min) linarith
  with i e i' 0 show ?case
    by (subst (1 2) retry_loop.simps) auto
next
  case (Suc n)
  then have a: "- (2 ^ 63) < sint a" "int i < sint a - 1"
    by (auto intro: pos_gt_min)
  from Suc.prems(3) obtain e where e: "cb i = Some e" by blast
  let ?s' = "s + word_of_int (int (rnd i mod nat (sint s)) div 2)"
  have "sint s * 2 * 2 ^ n < 2 ^ 63"
    using Suc.prems(5) by (simp add: mult.assoc)
  then have s': "0 < sint ?s'" "sint ?s' * 2 ^ n < 2 ^ 63"
    using backoff_step [of s n "2 ^ 63" "rnd i"] Suc.prems(4) by auto
  have "invocations (retry_loop a cb rnd (Suc i) ?s') = nat (sint a) \<and>
        outcome (retry_loop a cb rnd (Suc i) ?s') = Inr (Some (Errorf_retry a (the (cb (nat (sint a) - 1)))))"
    using Suc.prems s' a by (intro Suc.IH) auto
  then show ?case
    using retry_loop_unfold_fail [of cb i e a s rnd] e a Suc.prems(4) by (simp add: Let_def)
qed


text \<open>
  Claim C4, amended. For every \<open>maxAttempts \<ge> 1\<close> and every base delay that is positive
  and small enough for the backoff not to leave the 64-bit range (the delay, doubled once
  per sleep taken, stays below \<open>2\<^sup>6\<^sup>3\<close>): an operation that fails on its first
  \<open>k < maxAttempts\<close> invocations and succeeds on the next makes \<^verbatim>\<open>retry\<close> return
  \<^verbatim>\<open>nil\<close> after exactly \<open>k + 1\<close> invocations; an operation that fails on every
  invocation is invoked exactly \<open>maxAttempts\<close> times, and the returned error reads
  \<^verbatim>\<open>after <maxAttempts> attempts, last error: <the last error>\<close>.
\<close>

theorem retry_invocations:
  assumes "1 \<le> sint attempts" and "0 < sint sleep"
  shows
    "(int k < sint attempts \<and> (\<forall>j<k. callback j \<noteq> None) \<and> callback k = None \<and>
      sint sleep * 2 ^ k < 2 ^ 63 \<longrightarrow>
        invocations (retry attempts sleep callback rand) = k + 1 \<and>
        outcome (retry attempts sleep callback rand) = Inr None) \<and>
     ((\<forall>j. callback j \<noteq> None) \<and> sint sleep * 2 ^ (nat (sint attempts) - 1) < 2 ^ 63 \<longrightarrow>
        invocations (retry attempts sleep callback rand) = nat (sint attempts) \<and>
        outcome (retry attempts sleep callback rand) =
          Inr (Some (''after '' @ fmt_d attempts @ '' attempts, last error: '' @
                     the (callback (nat (sint attempts) - 1)))))"
proof (intro conjI impI)
  assume h: "int k < sint attempts \<and> (\<forall>j<k. callback j \<noteq> None) \<and> callback k = None \<and>
      sint sleep * 2 ^ k < 2 ^ 63"
  then have "invocations (retry_loop attempts callback rand 0 sleep) = Suc k \<and>
        outcome (retry_loop attempts callback rand 0 sleep) = Inr None"
    using assms(2) by (intro retry_loop_succeeds [where n = k]) auto
  then show "invocations (retry attempts sleep callback rand) = k + 1"
    and "outcome (retry attempts sleep callback rand) = Inr None"
    by (simp_all add: retry_def)
next
  assume h: "(\<forall>j. callback j \<noteq> None) \<and> sint sleep * 2 ^ (nat (sint attempts) - 1) < 2 ^ 63"
  then have r: "invocations (retry_loop attempts callback rand 0 sleep) = nat (sint attempts) \<and>
         outcome (retry_loop attempts callback rand 0 sleep) =
           Inr (Some (Errorf_retry attempts (the (callback (nat (sint attempts) - 1)))))"
    using assms by (intro retry_loop_exhausts [where n = "nat (sint attempts) - 1"]) auto
  from r show "invocations (retry attempts sleep callback rand) = nat (sint attempts)"
    by (simp add: retry_def)
  from r show "outcome (retry attempts sleep callback rand) =
          Inr (Some (''after '' @ fmt_d attempts @ '' attempts, last error: '' @
                     the (callback (nat (sint attempts) - 1))))"
    by (simp add: retry_def Errorf_retry_def)
qed

text \<open>
  The default session (5 attempts, 10 seconds): two failures and a success, and a service
  that is down throughout.
\<close>

theorem retry_invocations_witness:
  "1 \<le> sint (5 :: go_int) \<and> 0 < sint (10000000000 :: duration) \<and>
   invocations (retry 5 10000000000 [0 \<mapsto> ''timeout'', 1 \<mapsto> ''reset''] id) = 3 \<and>
   outcome (retry 5 10000000000 [0 \<mapsto> ''timeout'', 1 \<mapsto> ''reset''] id) = Inr None \<and>
   invocations (retry 5 10000000000 (\<lambda>i. Some ''down'') id) = 5 \<and>
   outcome (retry 5 10000000000 (\<lambda>i. Some ''down'') id) =
     Inr (Some ''after 5 attempts, last error: down'')"
  using retry_invocations [of 5 10000000000 2 "[0 \<mapsto> ''timeout'', 1 \<mapsto> ''reset'']" id]
    retry_invocations [of 5 10000000000 0 "\<lambda>i. Some ''down''" id]
  by (simp add: fmt_d_def less_Suc_eq)

text \<open>
  Claim C4 as stated, for every operation and whatever the base delay, fails when the base
  delay is zero: the first failure is followed by \<^verbatim>\<open>rand.Int63n(0)\<close>, which
  panics, so the operation that would succeed on its second invocation is invoked once and
  nothing is returned.
\<close>

theorem retry_invocations_counterexample:
  "1 \<le> sint (2 :: go_int) \<and> [0 \<mapsto> ''timeout''] (0::nat) \<noteq> None \<and> [0 \<mapsto> ''timeout''] (1::nat) = None \<and>
   invocations (retry 2 0 [0 \<mapsto> ''timeout''] id) = 1 \<and>
   outcome (retry 2 0 [0 \<mapsto> ''timeout''] id) = Inl InvalidArgument"
  by (simp add: retry_def retry_loop.simps)

text \<open>
  Claim C10, amended. For every \<open>maxAttempts\<close>, \<^verbatim>\<open>retry\<close> invokes the operation at
  least once. For every \<open>maxAttempts \<le> 1\<close> other than the least 64-bit integer (where
  \<open>attempts - 1\<close> wraps around to the greatest), the operation is invoked exactly once,
  nothing is slept, and a failure is returned at once, wrapped.
\<close>

theorem retry_once:
  "1 \<le> invocations (retry attempts sleep callback rand) \<and>
   (- (2 ^ 63) < sint attempts \<and> sint attempts \<le> 1 \<longrightarrow>
      retry attempts sleep callback rand =
        \<lparr>invocations = 1, sleeps = [],
         outcome = Inr (map_option (Errorf_retry attempts) (callback 0))\<rparr>)"
proof (intro conjI impI)
  show "1 \<le> invocations (retry attempts sleep callback rand)"
    using invocations_gt [of 0 attempts callback rand sleep] by (simp add: retry_def)
next
  assume "- (2 ^ 63) < sint attempts \<and> sint attempts \<le> 1"
  then have "sint (attempts - 1) \<le> 0"
    by (simp add: sint_sub1)
  then show "retry attempts sleep callback rand =
        \<lparr>invocations = 1, sleeps = [],
         outcome = Inr (map_option (Errorf_retry attempts) (callback 0))\<rparr>"
    unfolding retry_def by (subst retry_loop.simps) (simp split: option.splits)
qed

text \<open>A negative attempt count: one invocation, and the count is printed as given.\<close>

theorem retry_once_witness:
  "- (2 ^ 63) < sint (- 3 :: go_int) \<and> sint (- 3 :: go_int) \<le> 1 \<and>
   retry (- 3) 10000000000 (\<lambda>i. Some ''down'') id =
     \<lparr>invocations = 1, sleeps = [], outcome = Inr (Some ''after -3 attempts, last error: down'')\<rparr>"
  using retry_once [of "- 3" 10000000000 "\<lambda>i. Some ''down''" id]
  by (simp add: Errorf_retry_def fmt_d_def)

text \<open>
  Claim C10 as stated, for every \<open>maxAttempts \<le> 1\<close>, fails at the least 64-bit integer:
  \<open>attempts - 1\<close> is then \<open>2\<^sup>6\<^sup>3 - 1\<close>, the loop does not stop after the first
  failure, sleeps and invokes the operation again.
\<close>

theorem retry_once_counterexample:
  "sint (- (2 ^ 63) :: go_int) \<le> 1 \<and>
   invocations (retry (- (2 ^ 63)) 10000000000 [0 \<mapsto> ''timeout''] id) = 2 \<and>
   sleeps (retry (- (2 ^ 63)) 10000000000 [0 \<mapsto> ''timeout''] id) = [10000000000]"
  by (simp add: retry_def retry_loop.simps)


lemma backoff_chain_nth:
  "backoff_chain b ds \<Longrightarrow> i < length ds \<Longrightarrow>
     0 < (b # ds) ! i \<and> (b # ds) ! i \<le> ds ! i \<and> 2 * (ds ! i - (b # ds) ! i) < (b # ds) ! i"
proof (induction ds arbitrary: b i)
  case (Cons d ds)
  then show ?case by (cases i) auto
qed simp

lemma backoff_chain_lower: "backoff_chain b ds \<Longrightarrow> \<forall>d\<in>set ds. b \<le> d"
  by (induction ds arbitrary: b) fastforce+

lemma backoff_chain_sorted: "backoff_chain b ds \<Longrightarrow> sorted ds"
  by (induction ds arbitrary: b) (auto dest: backoff_chain_lower)

lemma sleeps_chain:
  "\<forall>d\<in>set (sleeps (retry_loop a cb rnd i s)). 0 \<le> sint d \<Longrightarrow>
     backoff_chain (sint s) (map sint (sleeps (retry_loop a cb rnd i s)))"
proof (induction a cb rnd i s rule: retry_loop.induct)
  case (1 a cb rnd i s)
  let ?j = "int (rnd i mod nat (sint s)) div 2"
  let ?s' = "s + word_of_int ?j"
  let ?rest = "retry_loop a cb rnd (Suc i) ?s'"
  show ?case
  proof (cases "\<exists>e. cb i = Some e \<and> \<not> sint (a - 1) \<le> int i \<and> \<not> sint s \<le> 0")
    case False
    then have "sleeps (retry_loop a cb rnd i s) = []"
      by (subst retry_loop.simps) (auto split: option.splits)
    then show ?thesis by simp
  next
    case True
    then obtain e where e: "cb i = Some e" "\<not> sint (a - 1) \<le> int i" "\<not> sint s \<le> 0"
      by blast
    then have unf: "sleeps (retry_loop a cb rnd i s) = ?s' # sleeps ?rest"
      by (subst retry_loop.simps) (simp add: Let_def)
    have pos: "0 < sint s" using e by simp
    have j: "0 \<le> ?j" "2 * ?j < sint s"
      using jitter_bounds [OF pos] by auto
    have lt: "sint s < 2 ^ 63"
      using sint_lt [of s] by simp
    have nonneg: "0 \<le> sint ?s'" "\<forall>d\<in>set (sleeps ?rest). 0 \<le> sint d"
      using "1.prems" unf by auto
    have exact: "sint ?s' = sint s + ?j"
    proof (cases "sint s + ?j < 2 ^ 63")
      case True
      then show ?thesis using j pos by (intro sint_add_exact) auto
    next
      case False
      then have "sint ?s' < 0"
        using j pos lt by (intro sint_add_wrapped) auto
      with nonneg show ?thesis by simp
    qed
    have "backoff_chain (sint ?s') (map sint (sleeps ?rest))"
      using e nonneg by (intro "1.IH" [OF e(1) e(2) e(3) refl refl]) auto
    then show ?thesis
      using unf exact j pos by simp
  qed
qed

text \<open>
  Claim C5, amended. In every execution of \<^verbatim>\<open>retry\<close> in which no delay wraps around
  the 64-bit range (that is, no sleep is negative), the sleep before each further attempt
  is the current base delay plus a jitter in \<open>[0, baseDelay/2)\<close>, that sleep is the base
  delay of the next round, and so the sleeps are non-decreasing. The interval is the real
  one: \<open>2 * jitter < baseDelay\<close>.
\<close>

theorem retry_backoff:
  assumes "\<forall>d\<in>set (sleeps (retry attempts sleep callback rand)). 0 \<le> sint d"
  shows "(\<forall>i<length (sleeps (retry attempts sleep callback rand)).
            \<exists>jitter. 0 \<le> jitter \<and> 2 * jitter < sint ((sleep # sleeps (retry attempts sleep callback rand)) ! i) \<and>
               sint (sleeps (retry attempts sleep callback rand) ! i) =
                 sint ((sleep # sleeps (retry attempts sleep callback rand)) ! i) + jitter) \<and>
         sorted (map sint (sleeps (retry attempts sleep callback rand)))"
proof -
  let ?ds = "sleeps (retry attempts sleep callback rand)"
  have chain: "backoff_chain (sint sleep) (map sint ?ds)"
    using assms unfolding retry_def by (rule sleeps_chain)
  have "\<exists>jitter. 0 \<le> jitter \<and> 2 * jitter < sint ((sleep # ?ds) ! i) \<and>
          sint (?ds ! i) = sint ((sleep # ?ds) ! i) + jitter" if "i < length ?ds" for i
  proof -
    have "i < length (map sint ?ds)" using that by simp
    from backoff_chain_nth [OF chain this]
    have "sint ((sleep # ?ds) ! i) \<le> sint (?ds ! i) \<and>
          2 * (sint (?ds ! i) - sint ((sleep # ?ds) ! i)) < sint ((sleep # ?ds) ! i)"
      using that by (cases i) (auto simp: nth_map)
    then show ?thesis
      by (intro exI [of _ "sint (?ds ! i) - sint ((sleep # ?ds) ! i)"]) simp
  qed
  moreover have "sorted (map sint ?ds)"
    using chain by (rule backoff_chain_sorted)
  ultimately show ?thesis by blast
qed

text \<open>The default session against a service that is down: four sleeps, growing.\<close>

theorem retry_backoff_witness:
  "sleeps (retry 5 10000000000 (\<lambda>i. Some ''down'') ((*) 3000000000)) =
     [10000000000, 11500000000, 14500000000, 19000000000] \<and>
   sorted (map sint (sleeps (retry 5 10000000000 (\<lambda>i. Some ''down'') ((*) 3000000000))))"
proof -
  have run: "sleeps (retry 5 10000000000 (\<lambda>i. Some ''down'') ((*) 3000000000)) =
      [10000000000, 11500000000, 14500000000, 19000000000]"
    by (simp add: retry_def retry_loop.simps)
  have h: "\<forall>d\<in>set (sleeps (retry 5 10000000000 (\<lambda>i. Some ''down'') ((*) 3000000000))). 0 \<le> sint d"
    by (simp add: run)
  from retry_backoff [OF h]
  have "sorted (map sint (sleeps (retry 5 10000000000 (\<lambda>i. Some ''down'') ((*) 3000000000))))"
    by blast
  with run show ?thesis by blast
qed

text \<open>
  Claim C5 as stated, for every execution, fails when the delay overflows: from a base
  delay of \<open>7 * 10\<^sup>1\<^sup>8\<close> nanoseconds the second sleep wraps around to a negative
  duration, below the first.
\<close>

theorem retry_backoff_counterexample:
  "map sint (sleeps (retry 3 7000000000000000000 (\<lambda>i. Some ''down'') ((*) 6999999999999999998))) =
     [7000000000000000000, - 7946744073709551617] \<and>
   \<not> sorted (map sint (sleeps (retry 3 7000000000000000000 (\<lambda>i. Some ''down'') ((*) 6999999999999999998))))"
  by (simp add: retry_def retry_loop.simps)

section \<open>Properties of imagesByRegion\<close>

lemma await_counts:
  "await_results (length cs) (map Count cs) acc = Some ((acc + sum_list cs) * bucketGranuleSize, None)"
  by (induction cs arbitrary: acc) (simp_all add: add.assoc)


lemma sum_list_reorder:
  fixes counts :: "go_int list"
  assumes "mset order = mset [0..<length counts]"
  shows "sum_list (map ((!) counts) order) = sum_list counts"
proof -
  have "mset (map ((!) counts) order) = image_mset ((!) counts) (mset order)"
    by (simp only: mset_map)
  also have "\<dots> = image_mset ((!) counts) (mset [0..<length counts])"
    by (simp only: assms)
  also have "\<dots> = mset (map ((!) counts) [0..<length counts])"
    by (simp only: mset_map)
  also have "\<dots> = mset counts"
    by (simp add: map_nth)
  finally have "sum_mset (mset (map ((!) counts) order)) = sum_mset (mset counts)"
    by simp
  then show ?thesis
    by (simp only: sum_mset_sum_list)
qed

lemma word_of_int_sum_sint:
  fixes counts :: "go_int list"
  shows "word_of_int (\<Sum>c\<leftarrow>counts. sint c) = sum_list counts"
  by (induction counts) simp_all

lemma sint_scaled_sum:
  fixes counts :: "go_int list"
  assumes "\<forall>c\<in>set counts. 0 \<le> sint c" and "13 * (\<Sum>c\<leftarrow>counts. sint c) < 2 ^ 63"
  shows "sint (sum_list counts * bucketGranuleSize) = 13 * (\<Sum>c\<leftarrow>counts. sint c)"
proof -
  let ?E = "13 * (\<Sum>c\<leftarrow>counts. sint c)"
  have "0 \<le> (\<Sum>c\<leftarrow>counts. sint c)"
    using assms(1) by (intro sum_list_nonneg) auto
  then have lo: "- (2 ^ 63) \<le> ?E" by simp
  have "sum_list counts * bucketGranuleSize = word_of_int ?E"
    by (simp add: bucketGranuleSize_def word_of_int_sum_sint mult.commute)
  then have "sint (sum_list counts * bucketGranuleSize) = signed_take_bit 63 ?E"
    by (simp only: sint_sbintrunc') simp
  also have "\<dots> = ?E"
    using lo assms(2) by (intro signed_take_bit_int_eq_self) auto
  finally show ?thesis .
qed

text \<open>
  Claim C1. For every cover of size \<open>N\<close>: when all \<open>N\<close> count queries complete
  without error, \<^verbatim>\<open>imagesByRegion\<close> returns, with no error, the sum of the \<open>N\<close>
  counts times \<^verbatim>\<open>bucketGranuleSize\<close>, which is 13, in whatever order the counts
  arrive. Sum and product are those of Go's \<^verbatim>\<open>int\<close>, as the function computes and
  returns them; for non-negative counts they are the sum and product of the integers
  whenever 13 times the sum is an \<^verbatim>\<open>int\<close> at all.
\<close>

theorem imagesByRegion_sum:
  assumes "mset order = mset [0..<length cover]"
    and "length counts = length cover"
    and "\<forall>i<length cover. getImageCount (bq i (cover ! i)) = Count (counts ! i)"
  shows "imagesByRegion None bq order cover = Some (sum_list counts * bucketGranuleSize, None) \<and>
         bucketGranuleSize = 13 \<and>
         ((\<forall>c\<in>set counts. 0 \<le> sint c) \<and> 13 * (\<Sum>c\<leftarrow>counts. sint c) < 2 ^ 63 \<longrightarrow>
            sint (sum_list counts * bucketGranuleSize) = 13 * (\<Sum>c\<leftarrow>counts. sint c))"
proof -
  have in_range: "\<forall>i\<in>set order. i < length cover"
    using mset_eq_setD [OF assms(1)] by simp
  then have arrivals: "map (\<lambda>i. getImageCount (bq i (cover ! i))) order = map Count (map ((!) counts) order)"
    using assms(3) by simp
  have len: "length (map ((!) counts) order) = length cover"
    using mset_eq_length [OF assms(1)] by simp
  have "imagesByRegion None bq order cover =
      await_results (length cover) (map (\<lambda>i. getImageCount (bq i (cover ! i))) order) 0"
    by (simp add: imagesByRegion_def)
  also have "\<dots> = await_results (length (map ((!) counts) order)) (map Count (map ((!) counts) order)) 0"
    by (simp only: arrivals len)
  also have "\<dots> = Some (sum_list (map ((!) counts) order) * bucketGranuleSize, None)"
    by (simp only: await_counts) simp
  also have "sum_list (map ((!) counts) order) = sum_list counts"
    using assms(1,2) by (intro sum_list_reorder) simp
  finally have "imagesByRegion None bq order cover =
      Some (sum_list counts * bucketGranuleSize, None)" .
  then show ?thesis
    using sint_scaled_sum [of counts] by (simp add: bucketGranuleSize_def)
qed


text \<open>Three cells with 3, 5 and 2 granules, the last count arriving first.\<close>

theorem imagesByRegion_sum_witness:
  "imagesByRegion None (\<lambda>i c. Inr [Item c]) [2, 0, 1] [3, 5, 2 :: go_int] = Some (130, None) \<and>
   sint (sum_list [3, 5, 2 :: go_int] * bucketGranuleSize) = 13 * (3 + 5 + 2)"
proof -
  have h1: "mset [2, 0, 1] = mset [0..<length [3, 5, 2 :: go_int]]"
    by (simp add: upt_rec)
  have h2: "length [3, 5, 2 :: go_int] = length [3, 5, 2 :: go_int]"
    by simp
  have h3: "\<forall>i<length [3, 5, 2 :: go_int].
      getImageCount ((\<lambda>i c. Inr [Item c]) i ([3, 5, 2] ! i)) = Count ([3, 5, 2] ! i)"
    by (simp add: getImageCount_def)
  from imagesByRegion_sum [of "[2, 0, 1]" "[3, 5, 2]" "[3, 5, 2]" "\<lambda>i c. Inr [Item c]", OF h1 h2 h3]
  show ?thesis
    by (simp add: bucketGranuleSize_def)
qed


section \<open>Properties of the worker pool\<close>

lemma retry_loop_no_panic:
  assumes "nat (sint a - 1) - i = n" "- (2 ^ 63) < sint a" "0 < sint s" "sint s * 2 ^ n < 2 ^ 63"
  shows "\<exists>e. outcome (retry_loop a cb rnd i s) = Inr e"
  using assms
proof (induction n arbitrary: i s)
  case 0
  then have "sint (a - 1) \<le> int i"
    by (simp add: sint_sub1)
  then show ?case
    by (subst retry_loop.simps) (simp split: option.splits)
next
  case (Suc n)
  show ?case
  proof (cases "cb i")
    case None
    then show ?thesis by (subst retry_loop.simps) simp
  next
    case (Some e)
    have i: "int i < sint a - 1" using Suc.prems(1) by linarith
    let ?s' = "s + word_of_int (int (rnd i mod nat (sint s)) div 2)"
    have "sint s * 2 * 2 ^ n < 2 ^ 63"
      using Suc.prems(4) by (simp add: mult.assoc)
    then have s': "0 < sint ?s'" "sint ?s' * 2 ^ n < 2 ^ 63"
      using backoff_step [of s n "2 ^ 63" "rnd i"] Suc.prems(3) by auto
    have "nat (sint a - 1) - Suc i = n" using Suc.prems(1) by simp
    then have "\<exists>e. outcome (retry_loop a cb rnd (Suc i) ?s') = Inr e"
      using Suc.prems(2) s' by (intro Suc.IH)
    then show ?thesis
      using retry_loop_unfold_fail [of cb i e a s rnd] Some i Suc.prems(2,3) by (simp add: Let_def)
  qed
qed

lemma retry_default_no_panic:
  "\<exists>e. outcome (retry (MaxRetries DefaultRetry) (Duration DefaultRetry * Second) cb rnd) = Inr e"
  unfolding retry_def
  by (rule retry_loop_no_panic [where n = 4]) (simp_all add: DefaultRetry_def Second_def)

lemma split_after_nonempty: "split_after sep piece s \<noteq> []"
  by (induction sep piece s rule: split_after.induct) auto

lemma split_after_marker:
  "sep \<noteq> [] \<Longrightarrow> s = a @ sep @ b \<Longrightarrow> 2 \<le> length (split_after sep piece s)"
proof (induction sep piece s arbitrary: a rule: split_after.induct)
  case (1 sep piece)
  then show ?case by simp
next
  case (2 sep piece c s)
  show ?case
  proof (cases "take (length sep) (c # s) = sep")
    case True
    have "split_after sep [] (drop (length sep - 1) s) \<noteq> []"
      by (rule split_after_nonempty)
    then have "1 \<le> length (split_after sep [] (drop (length sep - 1) s))"
      by (cases "split_after sep [] (drop (length sep - 1) s)") auto
    with True show ?thesis by simp
  next
    case False
    have "a \<noteq> []"
    proof
      assume "a = []"
      with "2.prems"(2) have "take (length sep) (c # s) = sep" by simp
      with False show False by simp
    qed
    then obtain a' where a: "a = c # a'"
      using "2.prems"(2) by (cases a) auto
    with "2.prems"(2) have "s = a' @ sep @ b" by simp
    with False "2.prems"(1) have "2 \<le> length (split_after sep (piece @ [c]) s)"
      by (intro "2.IH"(2)) auto
    with False show ?thesis by simp
  qed
qed

lemma SplitAfter_marker:
  "imgLink = a @ ''gcp-public-data-sentinel-2'' @ b \<Longrightarrow>
     \<not> length (SplitAfter imgLink ''gcp-public-data-sentinel-2'') < 2"
  using split_after_marker [of "''gcp-public-data-sentinel-2''" imgLink a b "[]"]
  by (simp add: SplitAfter_def)

lemma worker_job_marker:
  assumes "imgLink = a @ ''gcp-public-data-sentinel-2'' @ b"
  shows "\<exists>k d links f. \<forall>folderImages.
           worker_job w folderImages imgLink = Inr (advance k d w, (f folderImages)\<lparr>Links := links\<rparr>)"
proof -
  let ?lg = "SplitAfter imgLink ''gcp-public-data-sentinel-2''"
  let ?bucketName = "?lg ! 0"
  let ?imageObject = "Trim (?lg ! 1) ''/''"
  let ?call = "\<lambda>n. getImagesFromBucket ?bucketName (objects w n ?bucketName ?imageObject)"
  let ?run = "retry (MaxRetries DefaultRetry) (Duration DefaultRetry * Second)
                (\<lambda>i. case ?call (Suc i) of Inl e \<Rightarrow> Some e | Inr links \<Rightarrow> None) (draws w)"
  have len: "\<not> length ?lg < 2"
    using assms by (rule SplitAfter_marker)
  show ?thesis
  proof (cases "?call 0")
    case (Inr result)
    with len have "\<forall>fi. worker_job w fi imgLink = Inr (advance 1 0 w, (id fi)\<lparr>Links := result\<rparr>)"
      by (simp add: worker_job_def Let_def)
    then show ?thesis by blast
  next
    case (Inl err)
    obtain e where e: "outcome ?run = Inr e"
      using retry_default_no_panic by blast
    let ?result = "case ?call (invocations ?run) of Inl e \<Rightarrow> [] | Inr links \<Rightarrow> links"
    let ?w' = "advance (Suc (invocations ?run)) (length (sleeps ?run)) w"
    show ?thesis
    proof (cases e)
      case None
      with Inl len e have "\<forall>fi. worker_job w fi imgLink = Inr (?w', (id fi)\<lparr>Links := ?result\<rparr>)"
        by (simp add: worker_job_def Let_def)
      then show ?thesis by blast
    next
      case (Some err')
      with Inl len e have "\<forall>fi. worker_job w fi imgLink =
          Inr (?w', ((\<lambda>fi. fi\<lparr>Error := Some err'\<rparr>) fi)\<lparr>Links := ?result\<rparr>)"
        by (simp add: worker_job_def Let_def)
      then show ?thesis by blast
    qed
  qed
qed

lemma advance_advance: "advance k d (advance k' d' w) = advance (k + k') (d + d') w"
  by (simp add: advance_def add.assoc)

lemma advance_0: "advance 0 0 w = w"
  by (simp add: advance_def)

lemma worker_loop_total:
  "\<forall>imgLink\<in>set jobs. \<exists>a b. imgLink = a @ ''gcp-public-data-sentinel-2'' @ b \<Longrightarrow>
     \<exists>result. worker_loop w folderImages jobs = Inr result"
proof (induction jobs arbitrary: w folderImages)
  case Nil
  then show ?case by simp
next
  case (Cons imgLink jobs)
  then obtain a b where "imgLink = a @ ''gcp-public-data-sentinel-2'' @ b" by auto
  from worker_job_marker [OF this, of w]
  obtain w' fi' where "worker_job w folderImages imgLink = Inr (w', fi')" by blast
  moreover have "\<exists>result. worker_loop w' fi' jobs = Inr result"
    using Cons.prems by (intro Cons.IH) simp
  ultimately show ?case by simp
qed

lemma worker_loop_last:
  assumes "\<forall>l\<in>set (earlier @ [imgLink]). \<exists>a b. l = a @ ''gcp-public-data-sentinel-2'' @ b"
  shows "\<exists>k d result result'.
           worker_loop w folderImages (earlier @ [imgLink]) = Inr result \<and>
           worker_loop (advance k d w) fresh [imgLink] = Inr result' \<and>
           Links result = Links result'"
  using assms
proof (induction earlier arbitrary: w folderImages)
  case Nil
  then obtain a b where "imgLink = a @ ''gcp-public-data-sentinel-2'' @ b" by auto
  from worker_job_marker [OF this, of w]
  obtain k d links f where
    j: "\<forall>fi. worker_job w fi imgLink = Inr (advance k d w, (f fi)\<lparr>Links := links\<rparr>)" by blast
  have "worker_loop w folderImages ([] @ [imgLink]) = Inr ((f folderImages)\<lparr>Links := links\<rparr>)"
    using j by simp
  moreover have "worker_loop (advance 0 0 w) fresh [imgLink] = Inr ((f fresh)\<lparr>Links := links\<rparr>)"
    using j by (simp add: advance_0)
  moreover have "Links ((f folderImages)\<lparr>Links := links\<rparr>) = Links ((f fresh)\<lparr>Links := links\<rparr>)"
    by simp
  ultimately show ?case by blast
next
  case (Cons l earlier)
  then obtain a b where "l = a @ ''gcp-public-data-sentinel-2'' @ b" by auto
  from worker_job_marker [OF this, of w]
  obtain k1 d1 fi1 where j: "worker_job w folderImages l = Inr (advance k1 d1 w, fi1)" by blast
  have "\<exists>k d result result'.
           worker_loop (advance k1 d1 w) fi1 (earlier @ [imgLink]) = Inr result \<and>
           worker_loop (advance k d (advance k1 d1 w)) fresh [imgLink] = Inr result' \<and>
           Links result = Links result'"
    using Cons.prems by (intro Cons.IH) simp
  then obtain k d result result' where
    "worker_loop (advance k1 d1 w) fi1 (earlier @ [imgLink]) = Inr result"
    "worker_loop (advance (k + k1) (d + d1) w) fresh [imgLink] = Inr result'"
    "Links result = Links result'"
    by (auto simp: advance_advance)
  with j show ?case by (intro exI [of _ "k + k1"] exI [of _ "d + d1"] exI [of _ result] exI [of _ result']) simp
qed

text \<open>
  Claim C9 says that every pool worker sends exactly one \<^verbatim>\<open>Result\<close>. A worker that
  receives a link without the bucket name sends none: \<^verbatim>\<open>linkAndGranule[1]\<close> is out
  of range and the goroutine panics.
\<close>

theorem worker_result_counterexample:
  "worker \<lparr>objects = (\<lambda>n bucket prefix. []), draws = id\<rparr> [''tiles/32/V/NJ/''] =
     Inl IndexOutOfRange"
  by (simp add: worker_def worker_job_def SplitAfter_def)

text \<open>
  Claim C9, amended. Every pool worker whose jobs all contain the bucket name
  \<^verbatim>\<open>gcp-public-data-sentinel-2\<close> sends exactly one \<^verbatim>\<open>Result\<close>, after the jobs
  channel is exhausted. If it consumed one job or more, the links of that
  \<^verbatim>\<open>Result\<close> are those of its last job alone, the ones a worker starting at that
  moment with only this job would send: the links of its earlier jobs are overwritten.
\<close>

theorem worker_result:
  assumes "\<forall>imgLink\<in>set jobs. \<exists>a b. imgLink = a @ ''gcp-public-data-sentinel-2'' @ b"
  shows "\<exists>result. worker w jobs = Inr result \<and>
           (\<forall>earlier imgLink. jobs = earlier @ [imgLink] \<longrightarrow>
              (\<exists>k d result'. worker (advance k d w) [imgLink] = Inr result' \<and>
                 Links result = Links result'))"
proof -
  obtain result where r: "worker w jobs = Inr result"
    using worker_loop_total [OF assms] unfolding worker_def by blast
  have "\<exists>k d result'. worker (advance k d w) [imgLink] = Inr result' \<and> Links result = Links result'"
    if "jobs = earlier @ [imgLink]" for earlier imgLink
    using worker_loop_last [of earlier imgLink w "\<lparr>Links = [], Error = None\<rparr>" "\<lparr>Links = [], Error = None\<rparr>"]
      assms r that unfolding worker_def by auto
  with r show ?thesis by blast
qed


text \<open>
  A worker that takes two folders, of two objects and of one: it sends the one link of the
  second folder, as a worker would that took the second folder only.
\<close>

theorem worker_result_witness:
  "worker \<lparr>objects = (\<lambda>n bucket prefix. if prefix = ''tiles/A'' then [Item ''tiles/A/B01.jp2'', Item ''tiles/A/B02.jp2'']
                                          else [Item ''tiles/B/B01.jp2'']), draws = id\<rparr>
     [''gcp-public-data-sentinel-2/tiles/A/'', ''gcp-public-data-sentinel-2/tiles/B/''] =
     Inr \<lparr>Links = [''gcp-public-data-sentinel-2/tiles/B/B01.jp2''], Error = None\<rparr> \<and>
   (\<exists>k d result'.
      worker (advance k d \<lparr>objects = (\<lambda>n bucket prefix. if prefix = ''tiles/A'' then [Item ''tiles/A/B01.jp2'', Item ''tiles/A/B02.jp2'']
                                          else [Item ''tiles/B/B01.jp2'']), draws = id\<rparr>)
        [''gcp-public-data-sentinel-2/tiles/B/''] = Inr result' \<and>
      Links result' = [''gcp-public-data-sentinel-2/tiles/B/B01.jp2''])"
proof -
  let ?w = "\<lparr>objects = (\<lambda>n bucket prefix. if prefix = ''tiles/A'' then [Item ''tiles/A/B01.jp2'', Item ''tiles/A/B02.jp2'']
                                          else [Item ''tiles/B/B01.jp2'']), draws = id\<rparr>"
  let ?A = "''gcp-public-data-sentinel-2/tiles/A/''"
  let ?B = "''gcp-public-data-sentinel-2/tiles/B/''"
  have h: "\<forall>imgLink\<in>set [?A, ?B]. \<exists>a b. imgLink = a @ ''gcp-public-data-sentinel-2'' @ b"
    by (auto intro: exI [of _ "[]"])
  have run: "worker ?w [?A, ?B] =
      Inr \<lparr>Links = [''gcp-public-data-sentinel-2/tiles/B/B01.jp2''], Error = None\<rparr>"
    by (simp add: worker_def worker_job_def SplitAfter_def Trim_def getImagesFromBucket_def advance_def)
  from worker_result [OF h, of ?w] obtain result where
    r: "worker ?w [?A, ?B] = Inr result" and
    last: "\<forall>earlier imgLink. [?A, ?B] = earlier @ [imgLink] \<longrightarrow>
              (\<exists>k d result'. worker (advance k d ?w) [imgLink] = Inr result' \<and>
                 Links result = Links result')"
    by blast
  have "[?A, ?B] = [?A] @ [?B]" by simp
  with last obtain k d result' where
    "worker (advance k d ?w) [?B] = Inr result'" "Links result = Links result'"
    by blast
  moreover from r run have "Links result = [''gcp-public-data-sentinel-2/tiles/B/B01.jp2'']"
    by auto
  ultimately have "\<exists>k d result'. worker (advance k d ?w) [?B] = Inr result' \<and>
      Links result' = [''gcp-public-data-sentinel-2/tiles/B/B01.jp2'']"
    by auto
  with run show ?thesis by blast
qed

text \<open>
  Claim C3 fails on the code. Two distinct links whose listings succeed, with two objects
  and with one: if one worker takes both jobs, which the unbuffered channel allows, the
  pool returns one link instead of three, because the worker overwrites
  \<^verbatim>\<open>folderImages.Links\<close> at each job. If two workers take one job each, all three
  links are returned.
\<close>

theorem pool_one_taker_loses_links:
  "schedule_of 2 \<lparr>taker = [0, 0], arrival = [0, 1, 2]\<rparr> \<and>
   schedule_of 2 \<lparr>taker = [1, 0], arrival = [0, 1, 2]\<rparr> \<and>
   getImagesFromBucket ''gcp-public-data-sentinel-2'' [Item ''tiles/A/B01.jp2'', Item ''tiles/A/B02.jp2''] =
     Inr [''gcp-public-data-sentinel-2/tiles/A/B01.jp2'', ''gcp-public-data-sentinel-2/tiles/A/B02.jp2''] \<and>
   getImagesFromBucket ''gcp-public-data-sentinel-2'' [Item ''tiles/B/B01.jp2''] =
     Inr [''gcp-public-data-sentinel-2/tiles/B/B01.jp2''] \<and>
   pool None
     (\<lambda>k. \<lparr>objects = (\<lambda>n bucket prefix. if prefix = ''tiles/A'' then [Item ''tiles/A/B01.jp2'', Item ''tiles/A/B02.jp2'']
                                          else [Item ''tiles/B/B01.jp2'']), draws = id\<rparr>)
     \<lparr>taker = [0, 0], arrival = [0, 1, 2]\<rparr>
     [''gcp-public-data-sentinel-2/tiles/A/'', ''gcp-public-data-sentinel-2/tiles/B/''] =
     Inr \<lparr>Links = [''gcp-public-data-sentinel-2/tiles/B/B01.jp2''], Error = None\<rparr> \<and>
   pool None
     (\<lambda>k. \<lparr>objects = (\<lambda>n bucket prefix. if prefix = ''tiles/A'' then [Item ''tiles/A/B01.jp2'', Item ''tiles/A/B02.jp2'']
                                          else [Item ''tiles/B/B01.jp2'']), draws = id\<rparr>)
     \<lparr>taker = [1, 0], arrival = [0, 1, 2]\<rparr>
     [''gcp-public-data-sentinel-2/tiles/A/'', ''gcp-public-data-sentinel-2/tiles/B/''] =
     Inr \<lparr>Links = [''gcp-public-data-sentinel-2/tiles/B/B01.jp2'',
                    ''gcp-public-data-sentinel-2/tiles/A/B01.jp2'',
                    ''gcp-public-data-sentinel-2/tiles/A/B02.jp2''], Error = None\<rparr>"
  by (simp add: schedule_of_def upt_rec pool_def jobs_of_def worker_def worker_job_def SplitAfter_def
      Trim_def getImagesFromBucket_def advance_def)

end
